theory Spec2Isabelle
  imports Main "HOL-Library.Word"
begin

section \<open>TimerQueue: the data model\<close>

text \<open>
  A \<open>Timer*\<close> is modelled by its address: \<open>None\<close> is \<open>nullptr\<close>, \<open>Some a\<close> points to the
  Timer at address \<open>a\<close>. The member \<open>m_sequence_offset\<close> is a \<open>uint64_t\<close>, and \<open>size_t\<close>
  is taken to be 64 bits wide as well, so all arithmetic on sequence numbers wraps around
  at \<open>2 ^ 64\<close>. The \<open>std::deque<Timer*>\<close> is a list, its front at the head; \<open>size()\<close> is
  its length, which in the program is a \<open>size_t\<close> and so below \<open>2 ^ 64\<close>.
  \<open>next_expiration_point\<close> reads the front timer through \<open>Timer.h\<close> and is left out.
\<close>

type_synonym timer_ptr = "nat option"
type_synonym u64 = "64 word"

record TimerQueue =
  m_sequence_offset :: u64
  m_running_timers :: "timer_ptr list"

text \<open>
  Modelled from the spec: the macro \<open>ASSERT\<close> is declared in \<open>debug.h\<close>, which is not among
  the sources at hand. The specification has a violated precondition fail loudly, by an
  assertion, and counts it as fatal; so a failing \<open>ASSERT\<close> ends the call, and the run, with
  an error that names the assertion. The class has three of them.
\<close>

datatype error =
    Sequence_out_of_range  \<comment> \<open>\<open>ASSERT(0 <= i && i < m_running_timers.size())\<close> in cancel\<close>
  | Cancelled_twice        \<comment> \<open>\<open>ASSERT(m_running_timers[i])\<close> in cancel\<close>
  | Pop_on_empty           \<comment> \<open>\<open>ASSERT(b != e)\<close> in pop\<close>

definition TimerQueue_new :: TimerQueue where
  "TimerQueue_new = \<lparr>m_sequence_offset = 0, m_running_timers = []\<rparr>"

section \<open>The member functions\<close>

definition push :: "timer_ptr \<Rightarrow> TimerQueue \<Rightarrow> u64 \<times> TimerQueue" where
  "push timer q =
     (let q' = q\<lparr>m_running_timers := m_running_timers q @ [timer]\<rparr>
      in (of_nat (length (m_running_timers q')) - 1 + m_sequence_offset q', q'))"

definition is_current :: "u64 \<Rightarrow> TimerQueue \<Rightarrow> bool" where
  "is_current sequence q = (sequence = m_sequence_offset q)"

text \<open>
  The do-while loop of \<open>cancel\<close>: the body runs first (\<open>++m_sequence_offset\<close>,
  \<open>pop_front\<close>), then the test looks at what is left. It is only entered on a non-empty
  deque.
\<close>

function cancel_loop :: "u64 \<Rightarrow> timer_ptr list \<Rightarrow> u64 \<times> timer_ptr list" where
  "cancel_loop off xs =
     (if tl xs \<noteq> [] \<and> hd (tl xs) = None
      then cancel_loop (off + 1) (tl xs)
      else (off + 1, tl xs))"
  by pat_completeness auto
termination
proof (relation "measure (\<lambda>(off, xs). length xs)")
  show "wf (measure (\<lambda>(off :: u64, xs :: timer_ptr list). length xs))"
    by simp
next
  fix off :: u64 and xs :: "timer_ptr list"
  assume "tl xs \<noteq> [] \<and> hd (tl xs) = None"
  then show "((off + 1, tl xs), (off, xs)) \<in> measure (\<lambda>(off, xs). length xs)"
    by (cases xs) auto
qed

definition cancel :: "u64 \<Rightarrow> TimerQueue \<Rightarrow> error + (bool \<times> TimerQueue)" where
  "cancel sequence q =
     (let i = unat (sequence - m_sequence_offset q) in
      if \<not> (0 \<le> i \<and> i < length (m_running_timers q)) then Inl Sequence_out_of_range
      else if m_running_timers q ! i = None then Inl Cancelled_twice
      else
        let xs = (m_running_timers q)[i := None];
            is_cur = (i = 0)
        in if is_cur
           then (case cancel_loop (m_sequence_offset q) xs of
                   (off, ys) \<Rightarrow> Inr (is_cur, \<lparr>m_sequence_offset = off, m_running_timers = ys\<rparr>))
           else Inr (is_cur, q\<lparr>m_running_timers := xs\<rparr>))"

text \<open>
  The do-while loop of \<open>pop\<close>. The iterator \<open>b\<close> is the index it points at and \<open>e\<close> is
  \<open>length xs\<close>; \<open>b\<close> never passes \<open>e\<close>, so \<open>b != e\<close> after \<open>++b\<close> is \<open>Suc b < length xs\<close>.
  The result is the new offset and the final \<open>b\<close>.
\<close>

function pop_loop :: "u64 \<Rightarrow> nat \<Rightarrow> timer_ptr list \<Rightarrow> u64 \<times> nat" where
  "pop_loop off b xs =
     (if Suc b < length xs \<and> xs ! Suc b = None
      then pop_loop (off + 1) (Suc b) xs
      else (off + 1, Suc b))"
  by pat_completeness auto
termination
  by (relation "measure (\<lambda>(off, b, xs). length xs - b)") auto

definition pop :: "TimerQueue \<Rightarrow> error + (timer_ptr \<times> TimerQueue)" where
  "pop q =
     (if m_running_timers q = [] then Inl Pop_on_empty
      else
        let timer = m_running_timers q ! 0
        in (case pop_loop (m_sequence_offset q) 0 (m_running_timers q) of
              (off, b) \<Rightarrow>
                Inr (timer, \<lparr>m_sequence_offset = off,
                             m_running_timers = drop b (m_running_timers q)\<rparr>)))"

definition empty_tq :: "TimerQueue \<Rightarrow> bool" where
  "empty_tq q = (m_running_timers q = [])"

definition size_tq :: "TimerQueue \<Rightarrow> nat" where
  "size_tq q = length (m_running_timers q)"

definition cancelled_in_queue :: "TimerQueue \<Rightarrow> int" where
  "cancelled_in_queue q = (\<Sum>timer\<leftarrow>m_running_timers q. if timer \<noteq> None then 0 else 1)"

definition get_sequence_offset :: "TimerQueue \<Rightarrow> u64" where
  "get_sequence_offset q = m_sequence_offset q"

section \<open>Sequences of calls\<close>

datatype op = Push timer_ptr | Cancel u64 | Pop

datatype ret = Pushed u64 | Cancelled bool | Popped timer_ptr

fun step :: "op \<Rightarrow> TimerQueue \<Rightarrow> error + (ret \<times> TimerQueue)" where
  "step (Push timer) q = (case push timer q of (s, q') \<Rightarrow> Inr (Pushed s, q'))"
| "step (Cancel s) q =
     (case cancel s q of Inl e \<Rightarrow> Inl e | Inr (b, q') \<Rightarrow> Inr (Cancelled b, q'))"
| "step Pop q =
     (case pop q of Inl e \<Rightarrow> Inl e | Inr (t, q') \<Rightarrow> Inr (Popped t, q'))"

text \<open>The state after a sequence of calls; the first failing assertion ends the run.\<close>

fun exec :: "op list \<Rightarrow> TimerQueue \<Rightarrow> error + TimerQueue" where
  "exec [] q = Inr q"
| "exec (c # cs) q = (case step c q of Inl e \<Rightarrow> Inl e | Inr (r, q') \<Rightarrow> exec cs q')"

text \<open>What the calls returned, in order, up to the first failing assertion.\<close>

fun returned :: "op list \<Rightarrow> TimerQueue \<Rightarrow> ret list" where
  "returned [] q = []"
| "returned (c # cs) q = (case step c q of Inl e \<Rightarrow> [] | Inr (r, q') \<Rightarrow> r # returned cs q')"

fun pushed_ids :: "ret list \<Rightarrow> u64 list" where
  "pushed_ids [] = []"
| "pushed_ids (Pushed s # rs) = s # pushed_ids rs"
| "pushed_ids (r # rs) = pushed_ids rs"

text \<open>The timers that the \<open>pop\<close> calls of a run returned, in order.\<close>

fun popped_timers :: "ret list \<Rightarrow> timer_ptr list" where
  "popped_timers [] = []"
| "popped_timers (Popped timer # rs) = timer # popped_timers rs"
| "popped_timers (r # rs) = popped_timers rs"

text \<open>
  The preconditions of the calls, on the state they are made in. \<open>push\<close> is given a
  timer, that is a pointer that is not null; \<open>cancel\<close> is given a sequence number whose
  entry is in the queue and not yet cancelled; \<open>pop\<close> needs a queue that is not empty.
\<close>

fun pre :: "TimerQueue \<Rightarrow> op \<Rightarrow> bool" where
  "pre q (Push timer) = (timer \<noteq> None)"
| "pre q (Cancel s) =
     (unat (s - m_sequence_offset q) < length (m_running_timers q) \<and>
      m_running_timers q ! unat (s - m_sequence_offset q) \<noteq> None)"
| "pre q Pop = (\<not> empty_tq q)"

fun legal :: "op list \<Rightarrow> TimerQueue \<Rightarrow> bool" where
  "legal [] q = True"
| "legal (c # cs) q =
     (pre q c \<and> (case step c q of Inl e \<Rightarrow> False | Inr (r, q') \<Rightarrow> legal cs q'))"

text \<open>The front of the queue is a live timer, or there is no front.\<close>

definition front_live :: "TimerQueue \<Rightarrow> bool" where
  "front_live q = (case m_running_timers q of [] \<Rightarrow> True | timer # _ \<Rightarrow> timer \<noteq> None)"

section \<open>Bookkeeping for the invariants\<close>

text \<open>The number of \<open>push\<close> calls in a sequence of calls.\<close>

fun pushes :: "op list \<Rightarrow> nat" where
  "pushes [] = 0"
| "pushes (Push timer # cs) = Suc (pushes cs)"
| "pushes (c # cs) = pushes cs"

text \<open>
  The number of entries that a call takes out of \<open>m_running_timers\<close> (by \<open>pop_front\<close> in
  \<open>cancel\<close>, by \<open>erase\<close> in \<open>pop\<close>): the size before the call, one more for a push, less
  the size after it. \<open>popped_so_far\<close> adds them up along a run; it is what the comment on
  \<open>m_sequence_offset\<close> calls the number of timers that were popped from
  \<open>m_running_timers\<close>.
\<close>

definition popped_by :: "op \<Rightarrow> TimerQueue \<Rightarrow> nat" where
  "popped_by c q =
     (case step c q of
        Inl e \<Rightarrow> 0
      | Inr (r, q') \<Rightarrow> (case c of Push timer \<Rightarrow> Suc (size_tq q) | _ \<Rightarrow> size_tq q) - size_tq q')"

fun popped_so_far :: "op list \<Rightarrow> TimerQueue \<Rightarrow> nat" where
  "popped_so_far [] q = 0"
| "popped_so_far (c # cs) q =
     (case step c q of Inl e \<Rightarrow> 0 | Inr (r, q') \<Rightarrow> popped_by c q + popped_so_far cs q')"

text \<open>
  The sequence number under which the entry at index \<open>i\<close> is known to the callers: the
  specification's \<open>i + sequence_offset\<close>.
\<close>

definition id_at :: "TimerQueue \<Rightarrow> nat \<Rightarrow> u64" where
  "id_at q i = of_nat i + m_sequence_offset q"

text \<open>
  The timers that are in the queue and not cancelled, front first, each with its sequence
  number.
\<close>

fun entries :: "u64 \<Rightarrow> timer_ptr list \<Rightarrow> (u64 \<times> nat) list" where
  "entries s [] = []"
| "entries s (None # xs) = entries (s + 1) xs"
| "entries s (Some a # xs) = (s, a) # entries (s + 1) xs"

definition live_timers :: "TimerQueue \<Rightarrow> (u64 \<times> nat) list" where
  "live_timers q = entries (m_sequence_offset q) (m_running_timers q)"

text \<open>
  The preconditions as the documentation words them, on the history of the calls rather
  than on the state. \<open>h\<close> lists, oldest first, the sequence numbers that \<open>push\<close> has
  returned and that have neither been popped nor cancelled since, each with its timer.
  A push is given a timer and the deque has room for it (its size is a \<open>size_t\<close>); a cancel
  is given a number of \<open>h\<close>; a pop is made on a queue that is not empty, and takes the
  oldest number out of \<open>h\<close>. Calls after a failed assertion are not looked at.
\<close>

fun obeys :: "op list \<Rightarrow> TimerQueue \<Rightarrow> (u64 \<times> nat) list \<Rightarrow> bool" where
  "obeys [] q h = True"
| "obeys (Push timer # cs) q h =
     (case timer of
        None \<Rightarrow> False
      | Some a \<Rightarrow>
          Suc (size_tq q) < 2 ^ 64 \<and>
          (case push timer q of (s, q') \<Rightarrow> obeys cs q' (h @ [(s, a)])))"
| "obeys (Cancel s # cs) q h =
     (s \<in> fst ` set h \<and>
      (case cancel s q of
         Inl e \<Rightarrow> True
       | Inr (b, q') \<Rightarrow> obeys cs q' (filter (\<lambda>(s', a). s' \<noteq> s) h)))"
| "obeys (Pop # cs) q h =
     (\<not> empty_tq q \<and>
      (case pop q of Inl e \<Rightarrow> True | Inr (t, q') \<Rightarrow> obeys cs q' (tl h)))"

section \<open>The two loops in closed form\<close>

declare cancel_loop.simps [simp del] pop_loop.simps [simp del]

lemma cancel_loop_eq:
  "xs \<noteq> [] \<Longrightarrow>
   cancel_loop off xs =
     (off + 1 + of_nat (length (takeWhile (\<lambda>t. t = None) (tl xs))),
      dropWhile (\<lambda>t. t = None) (tl xs))"
proof (induction off xs rule: cancel_loop.induct)
  case (1 off xs)
  show ?case
  proof (cases "tl xs")
    case Nil
    then show ?thesis by (subst cancel_loop.simps) simp
  next
    case (Cons y ys)
    show ?thesis
    proof (cases y)
      case None
      with Cons 1 show ?thesis
        by (subst cancel_loop.simps) (simp add: algebra_simps)
    next
      case (Some a)
      with Cons show ?thesis by (subst cancel_loop.simps) simp
    qed
  qed
qed

lemma pop_loop_eq:
  "b < length xs \<Longrightarrow>
   pop_loop off b xs =
     (off + 1 + of_nat (length (takeWhile (\<lambda>t. t = None) (drop (Suc b) xs))),
      Suc b + length (takeWhile (\<lambda>t. t = None) (drop (Suc b) xs)))"
proof (induction off b xs rule: pop_loop.induct)
  case (1 off b xs)
  show ?case
  proof (cases "Suc b < length xs")
    case False
    then show ?thesis by (subst pop_loop.simps) simp
  next
    case True
    then have d: "drop (Suc b) xs = xs ! Suc b # drop (Suc (Suc b)) xs"
      by (simp add: Cons_nth_drop_Suc)
    show ?thesis
    proof (cases "xs ! Suc b")
      case None
      have "pop_loop off b xs = pop_loop (off + 1) (Suc b) xs"
        using True None by (subst pop_loop.simps) simp
      also have "\<dots> =
          (off + 1 + 1 + of_nat (length (takeWhile (\<lambda>t. t = None) (drop (Suc (Suc b)) xs))),
           Suc (Suc b) + length (takeWhile (\<lambda>t. t = None) (drop (Suc (Suc b)) xs)))"
        using 1 True None by simp
      finally show ?thesis using None by (simp add: d)
    next
      case (Some a)
      with True d show ?thesis by (subst pop_loop.simps) simp
    qed
  qed
qed

text \<open>\<open>pop\<close> returns the front and leaves what follows the nulls behind it.\<close>

lemma pop_Cons:
  assumes "m_running_timers q = t # rest"
  shows "pop q =
     Inr (t, \<lparr>m_sequence_offset =
                 m_sequence_offset q + 1 + of_nat (length (takeWhile (\<lambda>t. t = None) rest)),
               m_running_timers = dropWhile (\<lambda>t. t = None) rest\<rparr>)"
proof -
  have "pop_loop (m_sequence_offset q) 0 (t # rest) =
          (m_sequence_offset q + 1 + of_nat (length (takeWhile (\<lambda>t. t = None) rest)),
           Suc (length (takeWhile (\<lambda>t. t = None) rest)))"
    using pop_loop_eq [of 0 "t # rest" "m_sequence_offset q"] by simp
  moreover have "drop (length (takeWhile (\<lambda>t. t = None) rest)) rest =
      dropWhile (\<lambda>t. t = None) rest"
    by (rule dropWhile_eq_drop [symmetric])
  ultimately show ?thesis
    using assms by (simp add: pop_def)
qed

text \<open>\<open>cancel\<close> of the front entry, and of an entry behind the front.\<close>

lemma cancel_front:
  "m_running_timers q = Some a # rest \<Longrightarrow>
   cancel (m_sequence_offset q) q =
     Inr (True, \<lparr>m_sequence_offset =
                    m_sequence_offset q + 1 + of_nat (length (takeWhile (\<lambda>t. t = None) rest)),
                  m_running_timers = dropWhile (\<lambda>t. t = None) rest\<rparr>)"
  by (simp add: cancel_def cancel_loop_eq Let_def)

lemma cancel_inner:
  "i = unat (s - m_sequence_offset q) \<Longrightarrow> i \<noteq> 0 \<Longrightarrow> i < length (m_running_timers q) \<Longrightarrow>
   m_running_timers q ! i \<noteq> None \<Longrightarrow>
   cancel s q = Inr (False, q\<lparr>m_running_timers := (m_running_timers q)[i := None]\<rparr>)"
  by (simp add: cancel_def Let_def)

section \<open>The two scenarios of the specification\<close>

text \<open>
  C8. On a new queue, push three timers; they get the sequence numbers 0, 1 and 2. Cancel 1,
  then cancel 0. The second cancel returns true, the sequence offset is 2 afterwards, and
  the only entry left, the front, is the timer that was pushed as number 2.
\<close>

theorem scenario_front_cancel_sweep:
  "returned [Push (Some a), Push (Some b), Push (Some c), Cancel 1, Cancel 0] TimerQueue_new =
     [Pushed 0, Pushed 1, Pushed 2, Cancelled False, Cancelled True] \<and>
   exec [Push (Some a), Push (Some b), Push (Some c), Cancel 1, Cancel 0] TimerQueue_new =
     Inr \<lparr>m_sequence_offset = 2, m_running_timers = [Some c]\<rparr>"
  by (simp add: TimerQueue_new_def push_def cancel_def cancel_loop_eq Let_def)

text \<open>
  C2, as the code runs it. On a new queue, push five timers (numbers 0 to 4), cancel 2, pop
  twice. The pops return the timers of numbers 0 and 1, and the front is then the timer of
  number 3; the second pop also sweeps the null left by the cancel, so the sequence offset
  is 3 afterwards.
\<close>

theorem scenario_mid_cancel:
  "returned [Push (Some a), Push (Some b), Push (Some c), Push (Some d), Push (Some e),
             Cancel 2, Pop, Pop] TimerQueue_new =
     [Pushed 0, Pushed 1, Pushed 2, Pushed 3, Pushed 4, Cancelled False,
      Popped (Some a), Popped (Some b)] \<and>
   exec [Push (Some a), Push (Some b), Push (Some c), Push (Some d), Push (Some e),
         Cancel 2, Pop, Pop] TimerQueue_new =
     Inr \<lparr>m_sequence_offset = 3, m_running_timers = [Some d, Some e]\<rparr>"
  by (simp add: TimerQueue_new_def push_def cancel_def cancel_loop_eq pop_Cons Let_def)

text \<open>
  C2, as the specification words it, asks for a sequence offset of 2 after the second pop.
  With the timers at the addresses 10 to 14 the run ends with offset 3.
\<close>

theorem scenario_mid_cancel_offset_is_not_2:
  "exec [Push (Some 10), Push (Some 11), Push (Some 12), Push (Some 13), Push (Some 14),
         Cancel 2, Pop, Pop] TimerQueue_new =
     Inr \<lparr>m_sequence_offset = 3, m_running_timers = [Some 13, Some 14]\<rparr> \<and>
   get_sequence_offset \<lparr>m_sequence_offset = 3, m_running_timers = [Some 13, Some 14]\<rparr> \<noteq> 2"
  by (simp add: TimerQueue_new_def push_def cancel_def cancel_loop_eq pop_Cons Let_def
      get_sequence_offset_def)

section \<open>One call, case by case\<close>

lemma push_eq:
  "push timer q =
     (m_sequence_offset q + of_nat (length (m_running_timers q)),
      q\<lparr>m_running_timers := m_running_timers q @ [timer]\<rparr>)"
  by (simp add: push_def Let_def)

lemma unat_diff_0: "unat (s - off) = 0 \<Longrightarrow> s = (off :: u64)"
  by (simp add: unat_eq_zero)

lemma step_cases:
  assumes "step c q = Inr (r, q')"
  obtains
    (pushed) timer where "c = Push timer"
      "r = Pushed (m_sequence_offset q + of_nat (length (m_running_timers q)))"
      "q' = q\<lparr>m_running_timers := m_running_timers q @ [timer]\<rparr>"
  | (cancelled_front) a rest where "c = Cancel (m_sequence_offset q)"
      "m_running_timers q = Some a # rest" "r = Cancelled True"
      "q' = \<lparr>m_sequence_offset =
               m_sequence_offset q + 1 + of_nat (length (takeWhile (\<lambda>t. t = None) rest)),
             m_running_timers = dropWhile (\<lambda>t. t = None) rest\<rparr>"
  | (cancelled_inner) s i where "c = Cancel s" "i = unat (s - m_sequence_offset q)" "0 < i"
      "i < length (m_running_timers q)" "m_running_timers q ! i \<noteq> None" "r = Cancelled False"
      "q' = q\<lparr>m_running_timers := (m_running_timers q)[i := None]\<rparr>"
  | (popped) timer rest where "c = Pop" "m_running_timers q = timer # rest" "r = Popped timer"
      "q' = \<lparr>m_sequence_offset =
               m_sequence_offset q + 1 + of_nat (length (takeWhile (\<lambda>t. t = None) rest)),
             m_running_timers = dropWhile (\<lambda>t. t = None) rest\<rparr>"
proof (cases c)
  case (Push timer)
  with assms show ?thesis by (intro pushed [of timer]) (auto simp: push_eq)
next
  case (Cancel s)
  define i where "i = unat (s - m_sequence_offset q)"
  from assms Cancel have ok: "i < length (m_running_timers q)" "m_running_timers q ! i \<noteq> None"
    by (auto simp: cancel_def Let_def i_def split: if_splits sum.splits)
  show ?thesis
  proof (cases "i = 0")
    case True
    then have s: "s = m_sequence_offset q" by (simp add: i_def unat_diff_0)
    from ok True obtain a rest where xs: "m_running_timers q = Some a # rest"
      by (cases "m_running_timers q") auto
    from assms Cancel show ?thesis
      by (intro cancelled_front [of a rest]) (auto simp: s xs cancel_front [OF xs])
  next
    case False
    with ok have "cancel s q = Inr (False, q\<lparr>m_running_timers := (m_running_timers q)[i := None]\<rparr>)"
      by (intro cancel_inner) (auto simp: i_def)
    with assms Cancel False ok show ?thesis
      by (intro cancelled_inner [of s i]) (auto simp: i_def)
  qed
next
  case Pop
  with assms obtain timer rest where xs: "m_running_timers q = timer # rest"
    by (cases "m_running_timers q") (auto simp: pop_def)
  from assms Pop show ?thesis
    by (intro popped [of timer rest]) (auto simp: xs pop_Cons [OF xs])
qed

lemma pre_step:
  assumes "pre q c"
  shows "\<exists>r q'. step c q = Inr (r, q')"
proof (cases c)
  case (Push timer)
  then show ?thesis by (simp add: push_eq)
next
  case (Cancel s)
  with assms show ?thesis
    by (auto simp: cancel_def Let_def split: prod.splits)
next
  case Pop
  with assms obtain timer rest where xs: "m_running_timers q = timer # rest"
    by (cases "m_running_timers q") (auto simp: empty_tq_def)
  with Pop show ?thesis by (simp add: pop_Cons [OF xs])
qed

section \<open>The front is never a cancelled timer\<close>

lemma front_live_dropWhile:
  "front_live \<lparr>m_sequence_offset = off, m_running_timers = dropWhile (\<lambda>t. t = None) xs\<rparr>"
  by (induction xs) (auto simp: front_live_def)

lemma front_live_update:
  "0 < i \<Longrightarrow>
   front_live (q\<lparr>m_running_timers := (m_running_timers q)[i := None]\<rparr>) = front_live q"
  by (cases "m_running_timers q"; cases i) (auto simp: front_live_def)

lemma step_front_live:
  assumes "step c q = Inr (r, q')" and "pre q c" and "front_live q"
  shows "front_live q'"
  using assms(1)
proof (cases rule: step_cases)
  case (pushed timer)
  with assms(2,3) show ?thesis
    by (cases "m_running_timers q") (auto simp: front_live_def)
next
  case (cancelled_front a rest)
  then show ?thesis by (simp add: front_live_dropWhile)
next
  case (cancelled_inner s i)
  with assms(3) show ?thesis by (simp only: front_live_update)
next
  case (popped timer rest)
  then show ?thesis by (simp add: front_live_dropWhile)
qed

lemma legal_exec:
  "legal cs q \<Longrightarrow> front_live q \<Longrightarrow> \<exists>q'. exec cs q = Inr q' \<and> front_live q'"
proof (induction cs arbitrary: q)
  case Nil
  then show ?case by simp
next
  case (Cons c cs)
  from Cons.prems(1) obtain r q1 where st: "step c q = Inr (r, q1)" and "pre q c" "legal cs q1"
    by (auto split: sum.splits)
  with Cons.prems(2) have "front_live q1" by (blast intro: step_front_live)
  with Cons.IH \<open>legal cs q1\<close> st show ?case by simp
qed

lemma pop_front_live:
  assumes "front_live q" "\<not> empty_tq q"
  shows "\<exists>a q'. pop q = Inr (Some a, q')"
proof -
  from assms obtain a rest where xs: "m_running_timers q = Some a # rest"
    by (cases "m_running_timers q") (auto simp: front_live_def empty_tq_def)
  then show ?thesis by (simp add: pop_Cons [OF xs])
qed

text \<open>
  Why a push has to be given a timer: a null pointer pushed on a new queue is its front,
  and the pop that follows returns it.
\<close>

lemma push_nullptr_is_front:
  "exec [Push None] TimerQueue_new = Inr \<lparr>m_sequence_offset = 0, m_running_timers = [None]\<rparr> \<and>
   \<not> front_live \<lparr>m_sequence_offset = 0, m_running_timers = [None]\<rparr> \<and>
   pop \<lparr>m_sequence_offset = 0, m_running_timers = [None]\<rparr> =
     Inr (None, \<lparr>m_sequence_offset = 1, m_running_timers = []\<rparr>)"
  by (simp add: TimerQueue_new_def push_eq front_live_def pop_Cons)

text \<open>
  C1. Take any sequence of push, cancel and pop calls on a new queue in which every call
  meets its precondition (push is given a timer, not a null pointer). Then no assertion
  fails, and in the state reached the front entry, if there is one, is not null; so a pop
  on that state, when the queue is not empty, returns a timer that is not null.
\<close>

theorem front_never_null:
  assumes "legal cs TimerQueue_new"
  shows "\<exists>q. exec cs TimerQueue_new = Inr q \<and> front_live q \<and>
             (\<not> empty_tq q \<longrightarrow> (\<exists>a q'. pop q = Inr (Some a, q')))"
proof -
  have "front_live TimerQueue_new" by (simp add: front_live_def TimerQueue_new_def)
  with assms obtain q where "exec cs TimerQueue_new = Inr q" "front_live q"
    using legal_exec by blast
  then show ?thesis using pop_front_live by blast
qed

theorem front_never_null_witness:
  "legal [Push (Some 7), Push (Some 8), Cancel 1, Push (Some 9), Cancel 0] TimerQueue_new \<and>
   (\<exists>q. exec [Push (Some 7), Push (Some 8), Cancel 1, Push (Some 9), Cancel 0] TimerQueue_new = Inr q \<and>
        front_live q \<and> \<not> empty_tq q \<and> (\<exists>a q'. pop q = Inr (Some a, q')))"
proof -
  have l: "legal [Push (Some 7), Push (Some 8), Cancel 1, Push (Some 9), Cancel 0] TimerQueue_new"
    by (simp add: TimerQueue_new_def push_eq cancel_def cancel_loop_eq Let_def)
  have e: "exec [Push (Some 7), Push (Some 8), Cancel 1, Push (Some 9), Cancel 0] TimerQueue_new =
      Inr \<lparr>m_sequence_offset = 2, m_running_timers = [Some 9]\<rparr>"
    by (simp add: TimerQueue_new_def push_eq cancel_def cancel_loop_eq Let_def)
  show ?thesis
  proof (intro conjI)
    show "legal [Push (Some 7), Push (Some 8), Cancel 1, Push (Some 9), Cancel 0] TimerQueue_new"
      by (rule l)
    show "\<exists>q. exec [Push (Some 7), Push (Some 8), Cancel 1, Push (Some 9), Cancel 0] TimerQueue_new = Inr q \<and>
        front_live q \<and> \<not> empty_tq q \<and> (\<exists>a q'. pop q = Inr (Some a, q'))"
      using front_never_null [OF l] unfolding e by (simp add: empty_tq_def)
  qed
qed

section \<open>Offset plus size counts the pushes\<close>

lemma length_take_drop_While:
  "length (takeWhile P xs) + length (dropWhile P xs) = length xs"
  by (induction xs) auto

lemma swept_offset_size:
  "(off :: u64) + 1 + of_nat (length (takeWhile P rest)) + of_nat (length (dropWhile P rest)) =
   off + of_nat (Suc (length rest))"
proof -
  have "(of_nat (length (takeWhile P rest)) :: u64) + of_nat (length (dropWhile P rest)) =
      of_nat (length rest)"
    by (simp flip: of_nat_add add: length_take_drop_While)
  then show ?thesis by (simp add: algebra_simps)
qed

lemma step_offset_size:
  assumes "step c q = Inr (r, q')"
  shows "m_sequence_offset q' + of_nat (size_tq q') =
         m_sequence_offset q + of_nat (size_tq q) + of_nat (pushes [c])"
  using assms
proof (cases rule: step_cases)
  case (pushed timer)
  then show ?thesis by (simp add: size_tq_def)
next
  case (cancelled_front a rest)
  then show ?thesis by (simp add: size_tq_def swept_offset_size del: of_nat_Suc)
next
  case (cancelled_inner s i)
  then show ?thesis by (simp add: size_tq_def)
next
  case (popped timer rest)
  then show ?thesis by (simp add: size_tq_def swept_offset_size del: of_nat_Suc)
qed

lemma pushes_Cons: "pushes (c # cs) = pushes [c] + pushes cs"
  by (cases c) auto

lemma exec_offset_size:
  "exec cs q = Inr q' \<Longrightarrow>
   m_sequence_offset q' + of_nat (size_tq q') =
   m_sequence_offset q + of_nat (size_tq q) + of_nat (pushes cs)"
proof (induction cs arbitrary: q)
  case Nil
  then show ?case by simp
next
  case (Cons c cs)
  then obtain r q1 where st: "step c q = Inr (r, q1)" and ex: "exec cs q1 = Inr q'"
    by (auto split: sum.splits)
  from Cons.IH [OF ex] step_offset_size [OF st] show ?case
    by (subst pushes_Cons) (simp add: algebra_simps)
qed

lemma legal_exec_Inr: "legal cs q \<Longrightarrow> \<exists>q'. exec cs q = Inr q'"
proof (induction cs arbitrary: q)
  case Nil
  then show ?case by simp
next
  case (Cons c cs)
  then show ?case by (auto split: sum.splits)
qed

text \<open>
  C3. In every state that a sequence of calls meeting their preconditions reaches from a
  new queue, the sequence offset plus \<open>size()\<close> is the number that the next push returns;
  it is the number of pushes made so far (all in 64-bit arithmetic).
\<close>

theorem next_push_id:
  assumes "legal cs TimerQueue_new"
  shows "\<exists>q. exec cs TimerQueue_new = Inr q \<and>
             fst (push timer q) = get_sequence_offset q + of_nat (size_tq q) \<and>
             get_sequence_offset q + of_nat (size_tq q) = of_nat (pushes cs)"
proof -
  from assms obtain q where q: "exec cs TimerQueue_new = Inr q"
    using legal_exec_Inr by blast
  from exec_offset_size [OF q]
  have "get_sequence_offset q + of_nat (size_tq q) = of_nat (pushes cs)"
    by (simp add: TimerQueue_new_def size_tq_def get_sequence_offset_def)
  with q show ?thesis
    by (simp add: push_eq get_sequence_offset_def size_tq_def)
qed

theorem next_push_id_witness:
  "legal [Push (Some 5), Push (Some 6), Pop, Push (Some 7)] TimerQueue_new \<and>
   exec [Push (Some 5), Push (Some 6), Pop, Push (Some 7)] TimerQueue_new =
     Inr \<lparr>m_sequence_offset = 1, m_running_timers = [Some 6, Some 7]\<rparr> \<and>
   fst (push (Some 8) \<lparr>m_sequence_offset = 1, m_running_timers = [Some 6, Some 7]\<rparr>) = 3 \<and>
   get_sequence_offset \<lparr>m_sequence_offset = 1, m_running_timers = [Some 6, Some 7]\<rparr> +
     of_nat (size_tq \<lparr>m_sequence_offset = 1, m_running_timers = [Some 6, Some 7]\<rparr>) = 3"
proof -
  have l: "legal [Push (Some 5), Push (Some 6), Pop, Push (Some 7)] TimerQueue_new"
    by (simp add: TimerQueue_new_def push_eq pop_Cons empty_tq_def)
  have e: "exec [Push (Some 5), Push (Some 6), Pop, Push (Some 7)] TimerQueue_new =
      Inr \<lparr>m_sequence_offset = 1, m_running_timers = [Some 6, Some 7]\<rparr>"
    by (simp add: TimerQueue_new_def push_eq pop_Cons)
  have p: "pushes [Push (Some 5), Push (Some 6), Pop, Push (Some 7)] = 3"
    by simp
  show ?thesis
    using l next_push_id [OF l, of "Some 8"] unfolding e p by simp
qed

section \<open>What cancel does and returns\<close>

text \<open>
  C4. Let \<open>seq\<close> be a sequence number whose entry, at index \<open>seq - sequence_offset\<close>, is in
  the queue and not null. Then \<open>cancel(seq)\<close> returns true if and only if that index is 0,
  which is to say if and only if \<open>seq\<close> is the sequence offset (\<open>is_current\<close>). Behind the
  front it puts a null where the entry was and changes nothing else; at the front the
  entry is taken out with all the nulls that follow it, each one counted in the offset.
\<close>

theorem cancel_returns_is_current:
  assumes "i = unat (seq - m_sequence_offset q)"
    and "i < size_tq q" and "m_running_timers q ! i \<noteq> None"
  shows "(i = 0) = is_current seq q \<and>
         cancel seq q =
           Inr (is_current seq q,
                if i = 0
                then \<lparr>m_sequence_offset =
                        m_sequence_offset q + 1 +
                        of_nat (length (takeWhile (\<lambda>t. t = None) (tl (m_running_timers q)))),
                      m_running_timers = dropWhile (\<lambda>t. t = None) (tl (m_running_timers q))\<rparr>
                else q\<lparr>m_running_timers := (m_running_timers q)[i := None]\<rparr>)"
proof (cases "i = 0")
  case True
  with assms have s: "seq = m_sequence_offset q" by (simp add: unat_diff_0)
  from assms True obtain a rest where xs: "m_running_timers q = Some a # rest"
    by (cases "m_running_timers q") (auto simp: size_tq_def)
  show ?thesis using True s xs cancel_front [OF xs] by (simp add: is_current_def)
next
  case False
  with assms have "seq \<noteq> m_sequence_offset q" by auto
  with False assms cancel_inner [of i seq q] show ?thesis
    by (simp add: is_current_def size_tq_def)
qed

theorem cancel_returns_is_current_witness:
  "cancel 5 \<lparr>m_sequence_offset = 5, m_running_timers = [Some 1, None, Some 3]\<rparr> =
     Inr (True, \<lparr>m_sequence_offset = 7, m_running_timers = [Some 3]\<rparr>) \<and>
   is_current 5 \<lparr>m_sequence_offset = 5, m_running_timers = [Some 1, None, Some 3]\<rparr> \<and>
   cancel 7 \<lparr>m_sequence_offset = 5, m_running_timers = [Some 1, None, Some 3]\<rparr> =
     Inr (False, \<lparr>m_sequence_offset = 5, m_running_timers = [Some 1, None, None]\<rparr>) \<and>
   \<not> is_current 7 \<lparr>m_sequence_offset = 5, m_running_timers = [Some 1, None, Some 3]\<rparr>"
  using cancel_returns_is_current
          [of 0 5 "\<lparr>m_sequence_offset = 5, m_running_timers = [Some 1, None, Some 3]\<rparr>"]
        cancel_returns_is_current
          [of 2 7 "\<lparr>m_sequence_offset = 5, m_running_timers = [Some 1, None, Some 3]\<rparr>"]
  by (simp add: size_tq_def is_current_def)

section \<open>Push, then cancel what was pushed\<close>

lemma entries_append:
  "entries s (xs @ ys) = entries s xs @ entries (s + of_nat (length xs)) ys"
proof (induction xs arbitrary: s)
  case Nil
  then show ?case by simp
next
  case (Cons x xs)
  then show ?case by (cases x) (simp_all add: algebra_simps)
qed

lemma unat_of_nat_u64: "n < 2 ^ 64 \<Longrightarrow> unat (of_nat n :: u64) = n"
  by (simp add: unat_of_nat)

text \<open>
  C6, as the specification words it: after a push and the cancel of the number it
  returned, the queue is as it was before the push, but for the sequence offset. On a
  queue that holds one timer the cancelled entry stays behind as a null, and \<open>size()\<close> is
  2 where it was 1.
\<close>

theorem push_then_cancel_keeps_a_null:
  "cancel (fst (push (Some 2) \<lparr>m_sequence_offset = 0, m_running_timers = [Some 1]\<rparr>))
          (snd (push (Some 2) \<lparr>m_sequence_offset = 0, m_running_timers = [Some 1]\<rparr>)) =
     Inr (False, \<lparr>m_sequence_offset = 0, m_running_timers = [Some 1, None]\<rparr>) \<and>
   size_tq \<lparr>m_sequence_offset = 0, m_running_timers = [Some 1, None]\<rparr> \<noteq>
   size_tq \<lparr>m_sequence_offset = 0, m_running_timers = [Some 1]\<rparr>"
  by (simp add: push_eq cancel_def Let_def size_tq_def)

text \<open>
  C6, as the code has it. Push a timer on a queue whose deque has room for it, then cancel
  the number that the push returned. The cancel returns true exactly when the queue was
  empty before the push. In that case the queue is empty again and the sequence offset
  is one more than before. Otherwise the offset is as before and the deque is the one
  before the push with one null added at the back. Either way the live timers and their
  sequence numbers are those before the push.
\<close>

theorem push_then_cancel:
  assumes "Suc (size_tq q) < 2 ^ 64"
  shows "\<exists>q'. cancel (fst (push (Some a) q)) (snd (push (Some a) q)) = Inr (empty_tq q, q') \<and>
              q' = (if empty_tq q
                    then q\<lparr>m_sequence_offset := m_sequence_offset q + 1\<rparr>
                    else q\<lparr>m_running_timers := m_running_timers q @ [None]\<rparr>) \<and>
              live_timers q' = live_timers q"
proof -
  let ?n = "length (m_running_timers q)"
  let ?q1 = "q\<lparr>m_running_timers := m_running_timers q @ [Some a]\<rparr>"
  from assms have i: "unat (of_nat ?n :: u64) = ?n"
    by (intro unat_of_nat_u64) (simp add: size_tq_def)
  show ?thesis
  proof (cases "m_running_timers q")
    case Nil
    have "cancel (m_sequence_offset ?q1) ?q1 =
        Inr (True, \<lparr>m_sequence_offset = m_sequence_offset ?q1 + 1 +
                       of_nat (length (takeWhile (\<lambda>t. t = None) [])),
                     m_running_timers = dropWhile (\<lambda>t. t = None) []\<rparr>)"
      using cancel_front [of ?q1 a "[]"] by (simp add: Nil)
    with Nil show ?thesis
      by (simp add: push_eq empty_tq_def live_timers_def)
  next
    case (Cons x xs)
    then have n0: "m_running_timers q \<noteq> []" by simp
    have "cancel (m_sequence_offset q + of_nat ?n) ?q1 =
        Inr (False, ?q1\<lparr>m_running_timers := (m_running_timers ?q1)[?n := None]\<rparr>)"
      by (rule cancel_inner) (simp_all add: i n0)
    with n0 show ?thesis
      by (simp add: push_eq empty_tq_def live_timers_def entries_append)
  qed
qed

theorem push_then_cancel_witness:
  "Suc (size_tq \<lparr>m_sequence_offset = 4, m_running_timers = [Some 1, None]\<rparr>) < 2 ^ 64 \<and>
   cancel (fst (push (Some 9) \<lparr>m_sequence_offset = 4, m_running_timers = [Some 1, None]\<rparr>))
          (snd (push (Some 9) \<lparr>m_sequence_offset = 4, m_running_timers = [Some 1, None]\<rparr>)) =
     Inr (False, \<lparr>m_sequence_offset = 4, m_running_timers = [Some 1, None, None]\<rparr>) \<and>
   live_timers \<lparr>m_sequence_offset = 4, m_running_timers = [Some 1, None, None]\<rparr> = [(4, 1)] \<and>
   live_timers \<lparr>m_sequence_offset = 4, m_running_timers = [Some 1, None]\<rparr> = [(4, 1)]"
proof -
  have h: "Suc (size_tq \<lparr>m_sequence_offset = 4, m_running_timers = [Some 1, None]\<rparr>) < 2 ^ 64"
    by (simp add: size_tq_def)
  show ?thesis
    using h push_then_cancel [OF h, of 9]
    by (simp add: empty_tq_def live_timers_def)
qed

section \<open>Sequence numbers stay with their entries\<close>

lemma swept_entry:
  assumes "i < length rest" and "rest ! i \<noteq> None"
  shows "length (takeWhile (\<lambda>t. t = None) rest) \<le> i"
    and "i - length (takeWhile (\<lambda>t. t = None) rest) < length (dropWhile (\<lambda>t. t = None) rest)"
    and "dropWhile (\<lambda>t. t = None) rest ! (i - length (takeWhile (\<lambda>t. t = None) rest)) = rest ! i"
proof -
  let ?k = "length (takeWhile (\<lambda>t. t = None) rest)"
  show k: "?k \<le> i"
  proof (rule ccontr)
    assume "\<not> ?k \<le> i"
    then have "i < ?k" by simp
    then have "takeWhile (\<lambda>t. t = None) rest ! i \<in> set (takeWhile (\<lambda>t. t = None) rest)"
      by (rule nth_mem)
    moreover have "takeWhile (\<lambda>t. t = None) rest ! i = rest ! i"
      using \<open>i < ?k\<close> by (rule takeWhile_nth)
    ultimately have "rest ! i = None" by (auto dest: set_takeWhileD)
    with assms(2) show False by simp
  qed
  have d: "dropWhile (\<lambda>t. t = None) rest = drop ?k rest"
    by (rule dropWhile_eq_drop)
  from k assms(1) show "i - ?k < length (dropWhile (\<lambda>t. t = None) rest)"
    by (simp add: d)
  from k assms(1) show "dropWhile (\<lambda>t. t = None) rest ! (i - ?k) = rest ! i"
    by (simp add: d)
qed

lemma swept_id:
  "k \<le> i \<Longrightarrow> of_nat (i - k) + ((off :: u64) + 1 + of_nat k) = of_nat (Suc i) + off"
  by (simp add: of_nat_diff algebra_simps)

lemma stable_after_sweep:
  assumes xs: "m_running_timers q = x # rest"
    and i: "i < size_tq q" "m_running_timers q ! i \<noteq> None" "i \<noteq> 0"
    and q': "q' = \<lparr>m_sequence_offset =
                     m_sequence_offset q + 1 + of_nat (length (takeWhile (\<lambda>t. t = None) rest)),
                   m_running_timers = dropWhile (\<lambda>t. t = None) rest\<rparr>"
  shows "\<exists>j. j < size_tq q' \<and> m_running_timers q' ! j = m_running_timers q ! i \<and> id_at q' j = id_at q i"
proof -
  from i obtain i' where i': "i = Suc i'" by (cases i) auto
  with xs i have r: "i' < length rest" "rest ! i' \<noteq> None"
    by (simp_all add: size_tq_def)
  let ?k = "length (takeWhile (\<lambda>t. t = None) rest)"
  from swept_entry [OF r] have "?k \<le> i'"
    and "i' - ?k < length (dropWhile (\<lambda>t. t = None) rest)"
    and "dropWhile (\<lambda>t. t = None) rest ! (i' - ?k) = rest ! i'"
    by blast+
  then have "i' - ?k < size_tq q' \<and> m_running_timers q' ! (i' - ?k) = m_running_timers q ! i \<and>
      id_at q' (i' - ?k) = id_at q i"
    using swept_id [of ?k i' "m_sequence_offset q"]
    by (simp add: q' xs i' size_tq_def id_at_def)
  then show ?thesis by blast
qed

lemma id_at_unat: "id_at q (unat (s - m_sequence_offset q)) = s"
  by (simp add: id_at_def)

text \<open>
  C7. The sequence number of the entry at index \<open>i\<close> is \<open>i + sequence_offset\<close>: that is the
  number \<open>push\<close> returns for the entry it appends, the number whose entry \<open>cancel\<close> looks
  up, and for index 0 the number \<open>is_current\<close> accepts. And a call leaves every other
  live entry under its number: an entry that is not null, is not the one a cancel names
  and is not the front that a pop returns is in the queue after the call, with the same
  timer and the same sequence number.
\<close>

theorem sequence_numbers_are_stable:
  assumes "step c q = Inr (r, q')"
  shows "(\<forall>timer. c = Push timer \<longrightarrow>
            r = Pushed (id_at q' (size_tq q' - 1)) \<and>
            m_running_timers q' ! (size_tq q' - 1) = timer) \<and>
         (\<forall>s. c = Cancel s \<longrightarrow>
            id_at q (unat (s - m_sequence_offset q)) = s \<and>
            is_current s q = (s = id_at q 0)) \<and>
         (\<forall>i. i < size_tq q \<and> m_running_timers q ! i \<noteq> None \<and>
              c \<noteq> Cancel (id_at q i) \<and> (c = Pop \<longrightarrow> i \<noteq> 0) \<longrightarrow>
              (\<exists>j. j < size_tq q' \<and> m_running_timers q' ! j = m_running_timers q ! i \<and>
                              id_at q' j = id_at q i))"
  using assms
proof (cases rule: step_cases)
  case (pushed timer)
  then show ?thesis
    by (auto simp: id_at_def size_tq_def nth_append algebra_simps)
next
  case (cancelled_front a rest)
  have "\<exists>j. j < size_tq q' \<and> m_running_timers q' ! j = m_running_timers q ! i \<and> id_at q' j = id_at q i"
    if "i < size_tq q" "m_running_timers q ! i \<noteq> None" "c \<noteq> Cancel (id_at q i)" for i
  proof -
    have "i \<noteq> 0"
    proof
      assume "i = 0"
      then have "id_at q i = m_sequence_offset q" by (simp add: id_at_def)
      with that(3) cancelled_front(1) show False by simp
    qed
    with that cancelled_front show ?thesis by (intro stable_after_sweep)
  qed
  with cancelled_front(1) show ?thesis
    by (simp add: id_at_def is_current_def)
next
  case (cancelled_inner s i0)
  have "\<exists>j. j < size_tq q' \<and> m_running_timers q' ! j = m_running_timers q ! i \<and> id_at q' j = id_at q i"
    if "i < size_tq q" "c \<noteq> Cancel (id_at q i)" for i
  proof -
    from that(2) cancelled_inner(1,2) have "i \<noteq> i0"
      using id_at_unat [of q s] by auto
    with that(1) cancelled_inner(7) have "i < size_tq q' \<and>
        m_running_timers q' ! i = m_running_timers q ! i \<and> id_at q' i = id_at q i"
      by (simp add: size_tq_def id_at_def)
    then show ?thesis by blast
  qed
  with cancelled_inner(1) show ?thesis
    by (simp add: id_at_def is_current_def)
next
  case (popped timer rest)
  have "\<exists>j. j < size_tq q' \<and> m_running_timers q' ! j = m_running_timers q ! i \<and> id_at q' j = id_at q i"
    if "i < size_tq q" "m_running_timers q ! i \<noteq> None" "i \<noteq> 0" for i
    using popped that by (intro stable_after_sweep)
  with popped(1) show ?thesis by simp
qed

theorem sequence_numbers_are_stable_witness:
  "step Pop \<lparr>m_sequence_offset = 5, m_running_timers = [Some 1, None, Some 3]\<rparr> =
     Inr (Popped (Some 1), \<lparr>m_sequence_offset = 7, m_running_timers = [Some 3]\<rparr>) \<and>
   (\<exists>j. j < size_tq \<lparr>m_sequence_offset = 7, m_running_timers = [Some 3]\<rparr> \<and>
        m_running_timers \<lparr>m_sequence_offset = 7, m_running_timers = [Some 3]\<rparr> ! j = Some 3 \<and>
        id_at \<lparr>m_sequence_offset = 7, m_running_timers = [Some 3]\<rparr> j = 7) \<and>
   id_at \<lparr>m_sequence_offset = 5, m_running_timers = [Some 1, None, Some 3]\<rparr> 2 = 7 \<and>
   step (Push (Some 4)) \<lparr>m_sequence_offset = 5, m_running_timers = [Some 1, None, Some 3]\<rparr> =
     Inr (Pushed 8, \<lparr>m_sequence_offset = 5, m_running_timers = [Some 1, None, Some 3, Some 4]\<rparr>) \<and>
   id_at \<lparr>m_sequence_offset = 5, m_running_timers = [Some 1, None, Some 3, Some 4]\<rparr> 3 = 8 \<and>
   step (Cancel 7) \<lparr>m_sequence_offset = 5, m_running_timers = [Some 1, None, Some 3]\<rparr> =
     Inr (Cancelled False, \<lparr>m_sequence_offset = 5, m_running_timers = [Some 1, None, None]\<rparr>) \<and>
   (\<exists>j. j < size_tq \<lparr>m_sequence_offset = 5, m_running_timers = [Some 1, None, None]\<rparr> \<and>
        m_running_timers \<lparr>m_sequence_offset = 5, m_running_timers = [Some 1, None, None]\<rparr> ! j = Some 1 \<and>
        id_at \<lparr>m_sequence_offset = 5, m_running_timers = [Some 1, None, None]\<rparr> j = 5)"
proof -
  let ?q = "\<lparr>m_sequence_offset = 5, m_running_timers = [Some 1, None, Some 3]\<rparr>"
  have s1: "step Pop ?q = Inr (Popped (Some 1), \<lparr>m_sequence_offset = 7, m_running_timers = [Some 3]\<rparr>)"
    by (simp add: pop_Cons)
  have s2: "step (Push (Some 4)) ?q =
      Inr (Pushed 8, \<lparr>m_sequence_offset = 5, m_running_timers = [Some 1, None, Some 3, Some 4]\<rparr>)"
    by (simp add: push_eq)
  have s3: "step (Cancel 7) ?q =
      Inr (Cancelled False, \<lparr>m_sequence_offset = 5, m_running_timers = [Some 1, None, None]\<rparr>)"
    by (simp add: cancel_def Let_def)
  have a: "\<exists>j. j < size_tq \<lparr>m_sequence_offset = 7, m_running_timers = [Some 3]\<rparr> \<and>
        m_running_timers \<lparr>m_sequence_offset = 7, m_running_timers = [Some 3]\<rparr> ! j = Some 3 \<and>
        id_at \<lparr>m_sequence_offset = 7, m_running_timers = [Some 3]\<rparr> j = 7"
    using sequence_numbers_are_stable [OF s1, THEN conjunct2, THEN conjunct2, THEN spec, of 2]
    by (simp add: size_tq_def id_at_def)
  have b: "id_at \<lparr>m_sequence_offset = 5, m_running_timers = [Some 1, None, Some 3, Some 4]\<rparr> 3 = 8"
    using sequence_numbers_are_stable [OF s2, THEN conjunct1, THEN spec, of "Some 4"]
    by (simp add: size_tq_def eval_nat_numeral)
  have c: "\<exists>j. j < size_tq \<lparr>m_sequence_offset = 5, m_running_timers = [Some 1, None, None]\<rparr> \<and>
        m_running_timers \<lparr>m_sequence_offset = 5, m_running_timers = [Some 1, None, None]\<rparr> ! j = Some 1 \<and>
        id_at \<lparr>m_sequence_offset = 5, m_running_timers = [Some 1, None, None]\<rparr> j = 5"
    using sequence_numbers_are_stable [OF s3, THEN conjunct2, THEN conjunct2, THEN spec, of 0]
    by (simp add: size_tq_def id_at_def)
  have d: "id_at ?q 2 = 7" by (simp add: id_at_def)
  from s1 s2 s3 a b c d show ?thesis by blast
qed

section \<open>The sequence offset counts what has left the deque\<close>

lemma exec_append:
  "exec (cs @ cs') q = (case exec cs q of Inl e \<Rightarrow> Inl e | Inr q1 \<Rightarrow> exec cs' q1)"
  by (induction cs arbitrary: q) (auto split: sum.splits)

lemma legal_append:
  "legal (cs @ cs') q =
     (legal cs q \<and> (case exec cs q of Inl e \<Rightarrow> False | Inr q1 \<Rightarrow> legal cs' q1))"
proof (induction cs arbitrary: q)
  case Nil
  then show ?case by simp
next
  case (Cons c cs)
  then show ?case by (auto split: sum.splits)
qed

lemma popped_so_far_append:
  "exec cs q = Inr q1 \<Longrightarrow>
   popped_so_far (cs @ cs') q = popped_so_far cs q + popped_so_far cs' q1"
  by (induction cs arbitrary: q) (auto split: sum.splits)

lemma swept_count:
  "Suc (length rest) - length (dropWhile P rest) = Suc (length (takeWhile P rest))"
  using length_take_drop_While [of P rest] by simp

lemma step_offset_popped:
  assumes "step c q = Inr (r, q')"
  shows "m_sequence_offset q' = m_sequence_offset q + of_nat (popped_by c q)"
  using assms
proof (cases rule: step_cases)
  case (pushed timer)
  with assms show ?thesis by (simp add: popped_by_def size_tq_def)
next
  case (cancelled_front a rest)
  with assms show ?thesis by (simp add: popped_by_def size_tq_def swept_count)
next
  case (cancelled_inner s i)
  with assms show ?thesis by (simp add: popped_by_def size_tq_def)
next
  case (popped timer rest)
  with assms show ?thesis by (simp add: popped_by_def size_tq_def swept_count)
qed

lemma exec_offset_popped:
  "exec cs q = Inr q' \<Longrightarrow>
   m_sequence_offset q' = m_sequence_offset q + of_nat (popped_so_far cs q)"
proof (induction cs arbitrary: q)
  case Nil
  then show ?case by simp
next
  case (Cons c cs)
  then obtain r q1 where st: "step c q = Inr (r, q1)" and ex: "exec cs q1 = Inr q'"
    by (auto split: sum.splits)
  from Cons.IH [OF ex] step_offset_popped [OF st] st show ?case
    by (simp add: algebra_simps)
qed

text \<open>
  C5, as the specification words it: the sequence offset is the number of timers popped.
  Push a timer on a new queue and cancel it: no timer has been popped and the offset
  is 1. In the run of five pushes, the cancel of number 2 and two pops, two timers have
  been popped and the offset is 3.
\<close>

theorem offset_counts_cancelled_entries:
  "exec [Push (Some 1), Cancel 0] TimerQueue_new =
     Inr \<lparr>m_sequence_offset = 1, m_running_timers = []\<rparr> \<and>
   popped_timers (returned [Push (Some 1), Cancel 0] TimerQueue_new) = [] \<and>
   exec [Push (Some 10), Push (Some 11), Push (Some 12), Push (Some 13), Push (Some 14),
         Cancel 2, Pop, Pop] TimerQueue_new =
     Inr \<lparr>m_sequence_offset = 3, m_running_timers = [Some 13, Some 14]\<rparr> \<and>
   popped_timers (returned
        [Push (Some 10), Push (Some 11), Push (Some 12), Push (Some 13), Push (Some 14),
         Cancel 2, Pop, Pop] TimerQueue_new) = [Some 10, Some 11]"
  by (simp add: TimerQueue_new_def push_eq cancel_def cancel_loop_eq pop_Cons Let_def)

text \<open>
  C5, as the code has it. Along every sequence of calls that meet their preconditions,
  from a new queue on, the sequence offset is the number of entries that have left the
  deque so far: the timers that \<open>pop\<close> returned, and with them the cancelled entries that
  \<open>cancel\<close> or \<open>pop\<close> took out. It is at least what it was after any earlier part of the
  run. This is for runs in which fewer than \<open>2 ^ 64\<close> entries leave the deque, the range
  of the \<open>uint64_t\<close> counter.
\<close>

theorem offset_counts_popped:
  assumes "legal (cs @ cs') TimerQueue_new"
    and "popped_so_far (cs @ cs') TimerQueue_new < 2 ^ 64"
  shows "\<exists>q q'. exec cs TimerQueue_new = Inr q \<and> exec (cs @ cs') TimerQueue_new = Inr q' \<and>
           unat (get_sequence_offset q) = popped_so_far cs TimerQueue_new \<and>
           unat (get_sequence_offset q') = popped_so_far (cs @ cs') TimerQueue_new \<and>
           get_sequence_offset q \<le> get_sequence_offset q'"
proof -
  from assms(1) obtain q' where q': "exec (cs @ cs') TimerQueue_new = Inr q'"
    using legal_exec_Inr by blast
  then obtain q where q: "exec cs TimerQueue_new = Inr q"
    by (auto simp: exec_append split: sum.splits)
  let ?n = "popped_so_far cs TimerQueue_new"
  let ?m = "popped_so_far (cs @ cs') TimerQueue_new"
  have le: "?n \<le> ?m" by (simp add: popped_so_far_append [OF q])
  with assms(2) have n: "?n < 2 ^ 64" by simp
  have o: "m_sequence_offset q = of_nat ?n"
    using exec_offset_popped [OF q] by (simp add: TimerQueue_new_def)
  have o': "m_sequence_offset q' = of_nat ?m"
    using exec_offset_popped [OF q'] by (simp add: TimerQueue_new_def)
  from n have un: "unat (m_sequence_offset q) = ?n"
    unfolding o by (rule unat_of_nat_u64)
  from assms(2) have um: "unat (m_sequence_offset q') = ?m"
    unfolding o' by (rule unat_of_nat_u64)
  from un um le have "m_sequence_offset q \<le> m_sequence_offset q'"
    by (simp add: word_le_nat_alt)
  with q q' un um show ?thesis by (simp add: get_sequence_offset_def)
qed

theorem offset_counts_popped_witness:
  "legal ([Push (Some 5), Push (Some 6), Cancel 0] @ [Push (Some 7), Pop]) TimerQueue_new \<and>
   popped_so_far ([Push (Some 5), Push (Some 6), Cancel 0] @ [Push (Some 7), Pop]) TimerQueue_new
     < 2 ^ 64 \<and>
   exec [Push (Some 5), Push (Some 6), Cancel 0] TimerQueue_new =
     Inr \<lparr>m_sequence_offset = 1, m_running_timers = [Some 6]\<rparr> \<and>
   exec ([Push (Some 5), Push (Some 6), Cancel 0] @ [Push (Some 7), Pop]) TimerQueue_new =
     Inr \<lparr>m_sequence_offset = 2, m_running_timers = [Some 7]\<rparr> \<and>
   popped_so_far [Push (Some 5), Push (Some 6), Cancel 0] TimerQueue_new = 1 \<and>
   popped_so_far ([Push (Some 5), Push (Some 6), Cancel 0] @ [Push (Some 7), Pop]) TimerQueue_new = 2 \<and>
   unat (get_sequence_offset \<lparr>m_sequence_offset = 1, m_running_timers = [Some 6]\<rparr>) = 1 \<and>
   unat (get_sequence_offset \<lparr>m_sequence_offset = 2, m_running_timers = [Some 7]\<rparr>) = 2 \<and>
   get_sequence_offset \<lparr>m_sequence_offset = 1, m_running_timers = [Some 6]\<rparr> \<le>
   get_sequence_offset \<lparr>m_sequence_offset = 2, m_running_timers = [Some 7]\<rparr>"
proof -
  have l: "legal ([Push (Some 5), Push (Some 6), Cancel 0] @ [Push (Some 7), Pop]) TimerQueue_new"
    by (simp add: TimerQueue_new_def push_eq pop_Cons cancel_def cancel_loop_eq Let_def empty_tq_def)
  have e: "exec [Push (Some 5), Push (Some 6), Cancel 0] TimerQueue_new =
     Inr \<lparr>m_sequence_offset = 1, m_running_timers = [Some 6]\<rparr>"
    by (simp add: TimerQueue_new_def push_eq cancel_def cancel_loop_eq Let_def)
  have e': "exec ([Push (Some 5), Push (Some 6), Cancel 0] @ [Push (Some 7), Pop]) TimerQueue_new =
     Inr \<lparr>m_sequence_offset = 2, m_running_timers = [Some 7]\<rparr>"
    by (simp add: TimerQueue_new_def push_eq pop_Cons cancel_def cancel_loop_eq Let_def)
  have p0: "popped_so_far [Push (Some 5), Push (Some 6), Cancel 0] TimerQueue_new = 1"
    by (simp add: TimerQueue_new_def push_eq cancel_def cancel_loop_eq Let_def
        popped_by_def size_tq_def)
  have p: "popped_so_far ([Push (Some 5), Push (Some 6), Cancel 0] @ [Push (Some 7), Pop])
      TimerQueue_new = 2"
    by (simp add: TimerQueue_new_def push_eq pop_Cons cancel_def cancel_loop_eq Let_def
        popped_by_def size_tq_def)
  have b: "popped_so_far ([Push (Some 5), Push (Some 6), Cancel 0] @ [Push (Some 7), Pop])
      TimerQueue_new < 2 ^ 64"
    unfolding p by simp
  show ?thesis
    using l b offset_counts_popped [OF l b] unfolding e e' p p0
    by (simp add: get_sequence_offset_def)
qed

section \<open>Runs of push and pop, as long as one likes\<close>

lemma exec_pairs:
  "exec (concat (replicate n [Push (Some a), Pop])) \<lparr>m_sequence_offset = off, m_running_timers = []\<rparr> =
     Inr \<lparr>m_sequence_offset = off + of_nat n, m_running_timers = []\<rparr>"
proof (induction n arbitrary: off)
  case 0
  then show ?case by simp
next
  case (Suc n)
  then show ?case by (simp add: push_eq pop_Cons algebra_simps)
qed

lemma legal_pairs:
  "legal (concat (replicate n [Push (Some a), Pop])) \<lparr>m_sequence_offset = off, m_running_timers = []\<rparr>"
proof (induction n arbitrary: off)
  case 0
  then show ?case by simp
next
  case (Suc n)
  then show ?case by (simp add: push_eq pop_Cons empty_tq_def)
qed

lemma popped_pairs:
  "popped_so_far (concat (replicate n [Push (Some a), Pop]))
     \<lparr>m_sequence_offset = off, m_running_timers = []\<rparr> = n"
proof (induction n arbitrary: off)
  case 0
  then show ?case by simp
next
  case (Suc n)
  then show ?case by (simp add: push_eq pop_Cons popped_by_def size_tq_def)
qed



lemma u64_max: "(of_nat (2 ^ 64 - 1) :: u64) = 18446744073709551615"
  by simp


text \<open>
  What the bound on a run is for. Push a timer and pop it, \<open>2 ^ 64 - 1\<close> times over: the
  offset is \<open>2 ^ 64 - 1\<close>. Push and pop once more: \<open>2 ^ 64\<close> entries have left the deque
  and the \<open>uint64_t\<close> offset is 0.
\<close>

lemma offset_wraps_around:
  "legal (concat (replicate (2 ^ 64 - 1) [Push (Some 0), Pop]) @ [Push (Some 0), Pop])
     TimerQueue_new \<and>
   exec (concat (replicate (2 ^ 64 - 1) [Push (Some 0), Pop])) TimerQueue_new =
     Inr \<lparr>m_sequence_offset = 18446744073709551615, m_running_timers = []\<rparr> \<and>
   exec (concat (replicate (2 ^ 64 - 1) [Push (Some 0), Pop]) @ [Push (Some 0), Pop])
     TimerQueue_new =
     Inr \<lparr>m_sequence_offset = 0, m_running_timers = []\<rparr> \<and>
   popped_so_far (concat (replicate (2 ^ 64 - 1) [Push (Some 0), Pop]) @ [Push (Some 0), Pop])
     TimerQueue_new = 2 ^ 64"
proof -
  let ?W = "concat (replicate (2 ^ 64 - 1) [Push (Some 0), Pop])"
  let ?top = "\<lparr>m_sequence_offset = 18446744073709551615 :: u64, m_running_timers = []\<rparr>"
  have w: "exec ?W TimerQueue_new = Inr ?top"
    unfolding TimerQueue_new_def exec_pairs by (simp only: u64_max add_0)
  have l: "legal ?W TimerQueue_new"
    unfolding TimerQueue_new_def by (rule legal_pairs)
  have p: "popped_so_far ?W TimerQueue_new = 2 ^ 64 - 1"
    unfolding TimerQueue_new_def by (rule popped_pairs)
  have e1: "exec [Push (Some 0), Pop] ?top = Inr \<lparr>m_sequence_offset = 0, m_running_timers = []\<rparr>"
    by (simp add: push_eq pop_Cons)
  have l1: "legal [Push (Some 0), Pop] ?top"
    by (simp add: push_eq pop_Cons empty_tq_def)
  have p1: "popped_so_far [Push (Some 0), Pop] ?top = 1"
    by (simp add: push_eq pop_Cons popped_by_def size_tq_def)
  have "legal (?W @ [Push (Some 0), Pop]) TimerQueue_new"
    unfolding legal_append w using l l1 by simp
  moreover have "exec (?W @ [Push (Some 0), Pop]) TimerQueue_new =
      Inr \<lparr>m_sequence_offset = 0, m_running_timers = []\<rparr>"
    unfolding exec_append w using e1 by simp
  moreover have "popped_so_far (?W @ [Push (Some 0), Pop]) TimerQueue_new = 2 ^ 64"
    unfolding popped_so_far_append [OF w] p p1 by simp
  ultimately show ?thesis using w by blast
qed

section \<open>The sequence numbers that push returns\<close>

lemma map_upt_Suc_Cons: "map f [0..<Suc n] = f 0 # map (\<lambda>k. f (Suc k)) [0..<n]"
  by (simp only: map_upt_Suc)

lemma pushed_ids_run:
  "legal cs q \<Longrightarrow>
   pushed_ids (returned cs q) =
     map (\<lambda>k. m_sequence_offset q + of_nat (size_tq q) + of_nat k) [0..<pushes cs]"
proof (induction cs arbitrary: q)
  case Nil
  then show ?case by simp
next
  case (Cons c cs)
  from Cons.prems obtain r q1 where st: "step c q = Inr (r, q1)" and l: "legal cs q1"
    by (auto split: sum.splits)
  note n = step_offset_size [OF st]
  note ih = Cons.IH [OF l]
  from st show ?case
  proof (cases rule: step_cases)
    case (pushed timer)
    with st n ih show ?thesis
      by (simp add: map_upt_Suc_Cons size_tq_def algebra_simps del: upt_Suc)
  next
    case (cancelled_front a rest)
    with st n ih show ?thesis by simp
  next
    case (cancelled_inner s i)
    with st n ih show ?thesis by simp
  next
    case (popped timer rest)
    with st n ih show ?thesis by simp
  qed
qed

lemma of_nat_u64_strict_mono:
  "x < y \<Longrightarrow> y < 2 ^ 64 \<Longrightarrow> (of_nat x :: u64) < of_nat y"
  by (simp add: word_of_nat_less_iff take_bit_nat_eq_self)

lemma sorted_ids: "n \<le> 2 ^ 64 \<Longrightarrow> sorted_wrt (<) (map (of_nat :: nat \<Rightarrow> u64) [0..<n])"
proof -
  assume n: "n \<le> 2 ^ 64"
  have "sorted_wrt (\<lambda>x y. (of_nat x :: u64) < of_nat y) [0..<n]"
  proof (rule sorted_wrt_mono_rel [of "[0..<n]" "(<)"])
    fix x y
    assume "x \<in> set [0..<n]" "y \<in> set [0..<n]" "x < y"
    with n show "(of_nat x :: u64) < of_nat y"
      by (intro of_nat_u64_strict_mono) auto
  next
    show "sorted_wrt (<) [0..<n]" by simp
  qed
  then show ?thesis by (simp add: sorted_wrt_map)
qed

text \<open>
  Along a sequence of calls that meet their preconditions, from a new queue on, the pushes
  return 0, 1, 2 and so on, in 64-bit arithmetic. As long as there are at most \<open>2 ^ 64\<close>
  pushes the numbers returned are strictly increasing, and so no number is returned
  twice.
\<close>

lemma pushed_ids_below_wrap:
  assumes "legal cs TimerQueue_new"
  shows "pushed_ids (returned cs TimerQueue_new) = map of_nat [0..<pushes cs] \<and>
         (pushes cs \<le> 2 ^ 64 \<longrightarrow>
            sorted_wrt (<) (pushed_ids (returned cs TimerQueue_new)) \<and>
            distinct (pushed_ids (returned cs TimerQueue_new)))"
proof -
  have ids: "pushed_ids (returned cs TimerQueue_new) = map of_nat [0..<pushes cs]"
    using pushed_ids_run [OF assms] by (simp add: TimerQueue_new_def size_tq_def)
  moreover have "sorted_wrt (<) (map (of_nat :: nat \<Rightarrow> u64) [0..<pushes cs])"
    if "pushes cs \<le> 2 ^ 64"
    using that by (rule sorted_ids)
  ultimately show ?thesis by (simp add: strict_sorted_iff)
qed


section \<open>The assertions and the documented preconditions\<close>

lemma of_nat_u64_neq_0: "0 < n \<Longrightarrow> n < 2 ^ 64 \<Longrightarrow> (of_nat n :: u64) \<noteq> 0"
proof
  assume n: "0 < n" "n < 2 ^ 64" and z: "(of_nat n :: u64) = 0"
  from n(2) have "unat (of_nat n :: u64) = n" by (rule unat_of_nat_u64)
  with z n(1) show False by simp
qed

lemma entries_ids:
  "(s, a) \<in> set (entries off xs) \<Longrightarrow> \<exists>j<length xs. s = off + of_nat j \<and> xs ! j = Some a"
proof (induction xs arbitrary: off)
  case Nil
  then show ?case by simp
next
  case (Cons x xs)
  show ?case
  proof (cases "x = Some a \<and> s = off")
    case True
    then show ?thesis by (intro exI [of _ 0]) simp
  next
    case False
    with Cons.prems have "(s, a) \<in> set (entries (off + 1) xs)"
      by (cases x) auto
    from Cons.IH [OF this] obtain j where "j < length xs" "s = off + 1 + of_nat j" "xs ! j = Some a"
      by blast
    then show ?thesis by (intro exI [of _ "Suc j"]) (simp add: algebra_simps)
  qed
qed

lemma entries_later_ids:
  assumes "Suc (length xs) < 2 ^ 64"
  shows "off \<notin> fst ` set (entries (off + 1) xs)"
proof
  assume "off \<in> fst ` set (entries (off + 1) xs)"
  then obtain a where "(off, a) \<in> set (entries (off + 1) xs)" by auto
  from entries_ids [OF this] obtain j where j: "j < length xs" "off = off + 1 + of_nat j"
    by blast
  then have "(of_nat (Suc j) :: u64) = 0" by (simp add: algebra_simps)
  moreover from j(1) assms have "(of_nat (Suc j) :: u64) \<noteq> 0"
    by (intro of_nat_u64_neq_0) auto
  ultimately show False by simp
qed

lemma filter_absent: "s \<notin> fst ` set h \<Longrightarrow> filter (\<lambda>(s', a). s' \<noteq> s) h = h"
  by (induction h) auto

lemma entries_update:
  "i < length xs \<Longrightarrow> length xs < 2 ^ 64 \<Longrightarrow>
   entries off (xs[i := None]) = filter (\<lambda>(s', a). s' \<noteq> off + of_nat i) (entries off xs)"
proof (induction xs arbitrary: off i)
  case Nil
  then show ?case by simp
next
  case (Cons x xs)
  show ?case
  proof (cases i)
    case 0
    from Cons.prems have "off \<notin> fst ` set (entries (off + 1) xs)"
      by (intro entries_later_ids) simp
    then have "filter (\<lambda>(s', a). s' \<noteq> off) (entries (off + 1) xs) = entries (off + 1) xs"
      by (rule filter_absent)
    with 0 show ?thesis by (cases x) simp_all
  next
    case (Suc j)
    with Cons.prems have j: "j < length xs" "length xs < 2 ^ 64" by simp_all
    from Cons.IH [OF j, of "off + 1"]
    have ih: "entries (off + 1) (xs[j := None]) =
        filter (\<lambda>(s', a). s' \<noteq> off + of_nat (Suc j)) (entries (off + 1) xs)"
      by (simp add: algebra_simps)
    from Suc Cons.prems have "(of_nat (Suc j) :: u64) \<noteq> 0"
      by (intro of_nat_u64_neq_0) auto
    then have "off \<noteq> off + of_nat (Suc j)" by simp
    with Suc ih show ?thesis by (cases x) (simp_all del: of_nat_Suc)
  qed
qed

lemma entries_dropWhile:
  "entries (off + of_nat (length (takeWhile (\<lambda>t. t = None) xs))) (dropWhile (\<lambda>t. t = None) xs) =
   entries off xs"
proof (induction xs arbitrary: off)
  case Nil
  then show ?case by simp
next
  case (Cons x xs)
  show ?case
  proof (cases x)
    case None
    with Cons [of "off + 1"] show ?thesis by (simp add: algebra_simps)
  next
    case (Some a)
    then show ?thesis by simp
  qed
qed

lemma entries_swept:
  "entries (off + 1 + of_nat (length (takeWhile (\<lambda>t. t = None) rest)))
     (dropWhile (\<lambda>t. t = None) rest) = entries (off + 1) rest"
  by (rule entries_dropWhile)

text \<open>The queue agrees with the history of the calls.\<close>

lemma obeys_push:
  assumes "h = live_timers q"
  shows "h @ [(fst (push (Some a) q), a)] = live_timers (snd (push (Some a) q))"
  using assms by (simp add: push_eq live_timers_def entries_append)

lemma obeys_pop:
  assumes "h = live_timers q" and "front_live q" and "\<not> empty_tq q"
  shows "\<exists>t q'. pop q = Inr (t, q') \<and> tl h = live_timers q' \<and> size_tq q' \<le> size_tq q \<and>
               front_live q'"
proof -
  from assms(2,3) obtain a rest where xs: "m_running_timers q = Some a # rest"
    by (cases "m_running_timers q") (auto simp: front_live_def empty_tq_def)
  have "length (dropWhile (\<lambda>t. t = None) rest) \<le> length rest"
    by (rule length_dropWhile_le)
  with assms(1) xs show ?thesis
    by (simp add: pop_Cons [OF xs] live_timers_def entries_swept size_tq_def
        front_live_dropWhile)
qed

lemma obeys_cancel:
  assumes h: "h = live_timers q" and fl: "front_live q" and sz: "size_tq q < 2 ^ 64"
    and s: "s \<in> fst ` set h"
  shows "\<exists>b q'. cancel s q = Inr (b, q') \<and>
               filter (\<lambda>(s', a). s' \<noteq> s) h = live_timers q' \<and> size_tq q' \<le> size_tq q \<and>
               front_live q'"
proof -
  let ?off = "m_sequence_offset q" and ?xs = "m_running_timers q"
  from s h obtain a where "(s, a) \<in> set (entries ?off ?xs)"
    by (auto simp: live_timers_def)
  from entries_ids [OF this] obtain i where i: "i < length ?xs" "s = ?off + of_nat i"
    "?xs ! i = Some a" by blast
  from i(1) sz have u: "unat (s - ?off) = i"
    by (simp add: i(2) size_tq_def unat_of_nat_u64)
  from i(1) sz have upd: "entries ?off (?xs[i := None]) = filter (\<lambda>(s', a). s' \<noteq> s) h"
    by (simp add: entries_update i(2) h live_timers_def size_tq_def)
  show ?thesis
  proof (cases i)
    case 0
    with i obtain rest where xs: "?xs = Some a # rest"
      by (cases ?xs) auto
    from 0 i(2) have s0: "s = ?off" by simp
    have "length (dropWhile (\<lambda>t. t = None) rest) \<le> length rest"
      by (rule length_dropWhile_le)
    moreover from upd 0 xs have "filter (\<lambda>(s', a). s' \<noteq> s) h = entries (?off + 1) rest"
      by simp
    ultimately show ?thesis
      unfolding s0 cancel_front [OF xs]
      by (auto simp: live_timers_def entries_swept size_tq_def front_live_dropWhile xs)
  next
    case (Suc j)
    with i u have "cancel s q = Inr (False, q\<lparr>m_running_timers := ?xs[i := None]\<rparr>)"
      by (intro cancel_inner) simp_all
    moreover from Suc fl have "front_live (q\<lparr>m_running_timers := ?xs[i := None]\<rparr>)"
      by (simp add: front_live_update)
    ultimately show ?thesis
      using upd by (auto simp: live_timers_def size_tq_def)
  qed
qed

lemma obeys_exec:
  "obeys cs q h \<Longrightarrow> h = live_timers q \<Longrightarrow> front_live q \<Longrightarrow> size_tq q < 2 ^ 64 \<Longrightarrow>
   \<exists>q'. exec cs q = Inr q'"
proof (induction cs arbitrary: q h)
  case Nil
  then show ?case by simp
next
  case (Cons c cs)
  show ?case
  proof (cases c)
    case (Push timer)
    with Cons.prems(1) obtain a where a: "timer = Some a"
      and room: "Suc (size_tq q) < 2 ^ 64"
      and ob: "obeys cs (snd (push (Some a) q)) (h @ [(fst (push (Some a) q), a)])"
      by (auto split: option.splits prod.splits)
    have "front_live (snd (push (Some a) q))"
      using Cons.prems(3) step_front_live [of "Push (Some a)" q] by (simp add: push_eq)
    moreover have "size_tq (snd (push (Some a) q)) < 2 ^ 64"
      using room by (simp add: push_eq size_tq_def)
    ultimately have "\<exists>q'. exec cs (snd (push (Some a) q)) = Inr q'"
      using Cons.IH [OF ob] obeys_push [OF Cons.prems(2)] by blast
    with Push a show ?thesis by (simp add: push_eq)
  next
    case (Cancel s)
    with Cons.prems(1) have s: "s \<in> fst ` set h" by simp
    from obeys_cancel [OF Cons.prems(2,3,4) s] obtain b q1 where
      c: "cancel s q = Inr (b, q1)" and h1: "filter (\<lambda>(s', a). s' \<noteq> s) h = live_timers q1"
      and "size_tq q1 \<le> size_tq q" and f1: "front_live q1"
      by blast
    with Cons.prems(4) have sz1: "size_tq q1 < 2 ^ 64" by simp
    from Cons.prems(1) Cancel c have "obeys cs q1 (filter (\<lambda>(s', a). s' \<noteq> s) h)" by simp
    from Cons.IH [OF this h1 f1 sz1] Cancel c show ?thesis by simp
  next
    case Pop
    with Cons.prems(1) have ne: "\<not> empty_tq q" by simp
    from obeys_pop [OF Cons.prems(2,3) ne] obtain t q1 where
      p: "pop q = Inr (t, q1)" and h1: "tl h = live_timers q1"
      and "size_tq q1 \<le> size_tq q" and f1: "front_live q1"
      by blast
    with Cons.prems(4) have sz1: "size_tq q1 < 2 ^ 64" by simp
    from Cons.prems(1) Pop p have "obeys cs q1 (tl h)" by simp
    from Cons.IH [OF this h1 f1 sz1] Pop p show ?thesis by simp
  qed
qed

text \<open>
  C9. A pop on an empty queue fails its assertion. A cancel fails its first assertion when
  the index \<open>seq - sequence_offset\<close> is not below \<open>size()\<close>, and its second when the entry
  at that index is null already. And in a sequence of calls on a new queue that keeps to
  the documented preconditions (a pop only on a queue that is not empty, a cancel only of
  a number that an earlier push returned and that has not been popped or cancelled since)
  no assertion fails.
\<close>

theorem assertions_guard_preconditions:
  "(empty_tq q1 \<longrightarrow> pop q1 = Inl Pop_on_empty) \<and>
   (\<not> unat (s2 - m_sequence_offset q2) < size_tq q2 \<longrightarrow>
      cancel s2 q2 = Inl Sequence_out_of_range) \<and>
   (unat (s3 - m_sequence_offset q3) < size_tq q3 \<and>
    m_running_timers q3 ! unat (s3 - m_sequence_offset q3) = None \<longrightarrow>
      cancel s3 q3 = Inl Cancelled_twice) \<and>
   (obeys cs TimerQueue_new [] \<longrightarrow> (\<exists>q. exec cs TimerQueue_new = Inr q))"
proof (intro conjI impI)
  assume "empty_tq q1"
  then show "pop q1 = Inl Pop_on_empty" by (simp add: pop_def empty_tq_def)
next
  assume "\<not> unat (s2 - m_sequence_offset q2) < size_tq q2"
  then show "cancel s2 q2 = Inl Sequence_out_of_range"
    by (simp add: cancel_def Let_def size_tq_def)
next
  assume "unat (s3 - m_sequence_offset q3) < size_tq q3 \<and>
    m_running_timers q3 ! unat (s3 - m_sequence_offset q3) = None"
  then show "cancel s3 q3 = Inl Cancelled_twice"
    by (simp add: cancel_def Let_def size_tq_def)
next
  assume "obeys cs TimerQueue_new []"
  then show "\<exists>q. exec cs TimerQueue_new = Inr q"
    by (rule obeys_exec)
      (simp_all add: TimerQueue_new_def live_timers_def front_live_def size_tq_def)
qed

theorem assertions_guard_preconditions_witness:
  "empty_tq TimerQueue_new \<and> pop TimerQueue_new = Inl Pop_on_empty \<and>
   \<not> unat (0 - m_sequence_offset \<lparr>m_sequence_offset = 1, m_running_timers = [Some 6]\<rparr>) <
       size_tq \<lparr>m_sequence_offset = 1, m_running_timers = [Some 6]\<rparr> \<and>
   cancel 0 \<lparr>m_sequence_offset = 1, m_running_timers = [Some 6]\<rparr> = Inl Sequence_out_of_range \<and>
   unat (1 - m_sequence_offset \<lparr>m_sequence_offset = 0, m_running_timers = [Some 5, None]\<rparr>) <
       size_tq \<lparr>m_sequence_offset = 0, m_running_timers = [Some 5, None]\<rparr> \<and>
   m_running_timers \<lparr>m_sequence_offset = 0, m_running_timers = [Some 5, None]\<rparr> !
       unat (1 - m_sequence_offset \<lparr>m_sequence_offset = 0, m_running_timers = [Some 5, None]\<rparr>) = None \<and>
   cancel 1 \<lparr>m_sequence_offset = 0, m_running_timers = [Some 5, None]\<rparr> = Inl Cancelled_twice \<and>
   obeys [Push (Some 5), Push (Some 6), Cancel 1, Pop, Push (Some 7), Cancel 2] TimerQueue_new [] \<and>
   exec [Push (Some 5), Push (Some 6), Cancel 1, Pop, Push (Some 7), Cancel 2] TimerQueue_new =
     Inr \<lparr>m_sequence_offset = 3, m_running_timers = []\<rparr>"
proof -
  let ?cs = "[Push (Some 5), Push (Some 6), Cancel 1, Pop, Push (Some 7), Cancel 2]"
  have a: "empty_tq TimerQueue_new" by (simp add: empty_tq_def TimerQueue_new_def)
  have b: "\<not> unat (0 - m_sequence_offset \<lparr>m_sequence_offset = 1, m_running_timers = [Some 6]\<rparr>) <
       size_tq \<lparr>m_sequence_offset = 1, m_running_timers = [Some 6]\<rparr>"
    by (simp add: size_tq_def unsigned_minus_1_eq_mask mask_eq_exp_minus_1)
  have c: "unat (1 - m_sequence_offset \<lparr>m_sequence_offset = 0, m_running_timers = [Some 5, None]\<rparr>) <
       size_tq \<lparr>m_sequence_offset = 0, m_running_timers = [Some 5, None]\<rparr> \<and>
     m_running_timers \<lparr>m_sequence_offset = 0, m_running_timers = [Some 5, None]\<rparr> !
       unat (1 - m_sequence_offset \<lparr>m_sequence_offset = 0, m_running_timers = [Some 5, None]\<rparr>) = None"
    by (simp add: size_tq_def)
  have d: "obeys ?cs TimerQueue_new []"
    by (simp add: TimerQueue_new_def push_eq pop_Cons cancel_def cancel_loop_eq Let_def
        empty_tq_def size_tq_def)
  have e: "exec ?cs TimerQueue_new = Inr \<lparr>m_sequence_offset = 3, m_running_timers = []\<rparr>"
    by (simp add: TimerQueue_new_def push_eq pop_Cons cancel_def cancel_loop_eq Let_def)
  note t = assertions_guard_preconditions
    [of TimerQueue_new 0 "\<lparr>m_sequence_offset = 1, m_running_timers = [Some 6]\<rparr>"
        1 "\<lparr>m_sequence_offset = 0, m_running_timers = [Some 5, None]\<rparr>" ?cs]
  from t a have "pop TimerQueue_new = Inl Pop_on_empty" by blast
  moreover from t b
  have "cancel 0 \<lparr>m_sequence_offset = 1, m_running_timers = [Some 6]\<rparr> = Inl Sequence_out_of_range"
    by blast
  moreover from t c
  have "cancel 1 \<lparr>m_sequence_offset = 0, m_running_timers = [Some 5, None]\<rparr> = Inl Cancelled_twice"
    by blast
  ultimately show ?thesis using a b c d e by blast
qed

end
